theory Spec2Isabelle
  imports Main "HOL-Library.Sublist"
begin

section \<open>Python strings and character classes\<close>

text \<open>A Python \<open>str\<close> is a sequence of Unicode code points; a code point is an integer, as \<open>ord\<close> gives it.\<close>

type_synonym ustr = "int list"

text \<open>\<open>str.isspace\<close> of one code point, which is also what \<open>\s\<close> matches in a \<open>str\<close> pattern.\<close>

definition isspace :: "int \<Rightarrow> bool" where
  "isspace c = ((0x9 \<le> c \<and> c \<le> 0xD) \<or> (0x1C \<le> c \<and> c \<le> 0x20) \<or> c = 0x85 \<or> c = 0xA0
     \<or> c = 0x1680 \<or> (0x2000 \<le> c \<and> c \<le> 0x200A) \<or> c = 0x2028 \<or> c = 0x2029
     \<or> c = 0x202F \<or> c = 0x205F \<or> c = 0x3000)"

text \<open>The code points \<open>\d\<close> matches in a \<open>str\<close> pattern: the decimal digits of Unicode
  (general category Nd, Unicode 14.0): the ASCII digits and, beyond them, the inclusive
  ranges of \<open>decimal_ranges\<close>.\<close>

definition decimal_ranges :: "(int \<times> int) list" where
  "decimal_ranges =
    [(0x660, 0x669), (0x6F0, 0x6F9), (0x7C0, 0x7C9), (0x966, 0x96F),
     (0x9E6, 0x9EF), (0xA66, 0xA6F), (0xAE6, 0xAEF), (0xB66, 0xB6F), (0xBE6, 0xBEF),
     (0xC66, 0xC6F), (0xCE6, 0xCEF), (0xD66, 0xD6F), (0xDE6, 0xDEF), (0xE50, 0xE59),
     (0xED0, 0xED9), (0xF20, 0xF29), (0x1040, 0x1049), (0x1090, 0x1099), (0x17E0, 0x17E9),
     (0x1810, 0x1819), (0x1946, 0x194F), (0x19D0, 0x19D9), (0x1A80, 0x1A89), (0x1A90, 0x1A99),
     (0x1B50, 0x1B59), (0x1BB0, 0x1BB9), (0x1C40, 0x1C49), (0x1C50, 0x1C59), (0xA620, 0xA629),
     (0xA8D0, 0xA8D9), (0xA900, 0xA909), (0xA9D0, 0xA9D9), (0xA9F0, 0xA9F9), (0xAA50, 0xAA59),
     (0xABF0, 0xABF9), (0xFF10, 0xFF19), (0x104A0, 0x104A9), (0x10D30, 0x10D39),
     (0x11066, 0x1106F), (0x110F0, 0x110F9), (0x11136, 0x1113F), (0x111D0, 0x111D9),
     (0x112F0, 0x112F9), (0x11450, 0x11459), (0x114D0, 0x114D9), (0x11650, 0x11659),
     (0x116C0, 0x116C9), (0x11730, 0x11739), (0x118E0, 0x118E9), (0x11950, 0x11959),
     (0x11C50, 0x11C59), (0x11D50, 0x11D59), (0x11DA0, 0x11DA9), (0x16A60, 0x16A69),
     (0x16AC0, 0x16AC9), (0x16B50, 0x16B59), (0x1D7CE, 0x1D7FF), (0x1E140, 0x1E149),
     (0x1E2F0, 0x1E2F9), (0x1E950, 0x1E959), (0x1FBF0, 0x1FBF9)]"

definition isdecimal :: "int \<Rightarrow> bool" where
  "isdecimal c =
     (0x30 \<le> c \<and> (c \<le> 0x39 \<or> (0x660 \<le> c \<and> list_ex (\<lambda>(lo, hi). lo \<le> c \<and> c \<le> hi) decimal_ranges)))"

text \<open>\<open>str.strip()\<close> without argument removes leading and trailing whitespace.\<close>

definition strip :: "ustr \<Rightarrow> ustr" where
  "strip s = rev (dropWhile isspace (rev (dropWhile isspace s)))"

section \<open>The regular expressions of the parser\<close>

text \<open>The patterns of \<open>parse_question_bank\<close> use literal characters, single-character
  classes under \<open>*\<close>, \<open>+\<close> and \<open>*?\<close>, capturing groups, one lookahead with two alternatives
  and \<open>\Z\<close>. \<open>Dot_all\<close> is \<open>.\<close> under \<open>re.DOTALL\<close>, \<open>Dot\<close> is \<open>.\<close> without it.\<close>

datatype cls = Dot_all | Dot | Space | Digit

fun in_cls :: "cls \<Rightarrow> int \<Rightarrow> bool" where
  "in_cls Dot_all c = True"
| "in_cls Dot c = (c \<noteq> 0xA)"
| "in_cls Space c = isspace c"
| "in_cls Digit c = isdecimal c"

datatype mark = Start nat | End nat

datatype node =
    Chr int
  | Plus cls
  | Star cls
  | Lazy cls
  | Mark mark
  | Ahead "node list list"
  | End_Z

text \<open>A mark stores the position, counted from the start of the match, at which a
  group opens or closes.\<close>

type_synonym marks = "(mark \<times> nat) list"

text \<open>The backtracking matcher, anchored at the head of the subject: the greedy repeats
  try the longest run first, the lazy repeat the shortest, and the lookahead succeeds
  when one of its alternatives matches. \<open>i\<close> counts the characters consumed so far. The
  result is the unconsumed rest of the subject and the marks of the successful path.\<close>

fun re_match :: "node list \<Rightarrow> ustr \<Rightarrow> nat \<Rightarrow> marks \<Rightarrow> (ustr \<times> marks) option" where
  "re_match [] s i ms = Some (s, ms)"
| "re_match (Chr c # p) [] i ms = None"
| "re_match (Chr c # p) (x # s) i ms = (if x = c then re_match p s (Suc i) ms else None)"
| "re_match (Plus k # p) [] i ms = None"
| "re_match (Plus k # p) (x # s) i ms =
     (if in_cls k x then re_match (Star k # p) s (Suc i) ms else None)"
| "re_match (Star k # p) [] i ms = re_match p [] i ms"
| "re_match (Star k # p) (x # s) i ms =
     (if in_cls k x
      then (case re_match (Star k # p) s (Suc i) ms of
              Some r \<Rightarrow> Some r
            | None \<Rightarrow> re_match p (x # s) i ms)
      else re_match p (x # s) i ms)"
| "re_match (Lazy k # p) [] i ms = re_match p [] i ms"
| "re_match (Lazy k # p) (x # s) i ms =
     (case re_match p (x # s) i ms of
        Some r \<Rightarrow> Some r
      | None \<Rightarrow> if in_cls k x then re_match (Lazy k # p) s (Suc i) ms else None)"
| "re_match (Mark m # p) s i ms = re_match p s i ((m, i) # ms)"
| "re_match (Ahead alts # p) s i ms =
     (if list_ex (\<lambda>alt. re_match alt s i ms \<noteq> None) alts then re_match p s i ms else None)"
| "re_match (End_Z # p) s i ms = (if s = [] then re_match p s i ms else None)"

text \<open>The text of group \<open>k\<close> of a match that started at the head of \<open>s\<close>; a group that
  took no part in the match gives the empty string.\<close>

definition group :: "ustr \<Rightarrow> marks \<Rightarrow> nat \<Rightarrow> ustr" where
  "group s ms k =
     (case (map_of ms (Start k), map_of ms (End k)) of
        (Some a, Some b) \<Rightarrow> take (b - a) (drop a s)
      | _ \<Rightarrow> [])"

definition ngroups :: "node list \<Rightarrow> nat" where
  "ngroups p = length (filter (\<lambda>n. case n of Mark (Start _) \<Rightarrow> True | _ \<Rightarrow> False) p)"

text \<open>\<open>pattern.findall(s)\<close> for a pattern with several groups: the tuples of groups of the
  non-overlapping matches, scanning from left to right. The scan resumes where a match
  ended; after an empty match it moves on by one character. The patterns of the parser
  never match the empty string (the progress lemmas below), so this last case does not
  arise for them.\<close>

function findall :: "node list \<Rightarrow> ustr \<Rightarrow> ustr list list" where
  "findall p s =
     (case re_match p s 0 [] of
        Some (rest, ms) \<Rightarrow>
          map (group s ms) [1 ..< Suc (ngroups p)] #
            (if length rest < length s then findall p rest
             else (case s of [] \<Rightarrow> [] | _ # s' \<Rightarrow> findall p s'))
      | None \<Rightarrow> (case s of [] \<Rightarrow> [] | _ # s' \<Rightarrow> findall p s'))"
  by pat_completeness auto
termination
  by (relation "measure (\<lambda>(p, s). length s)") auto

text \<open>\<open>pattern.finditer(s)\<close> read through \<open>m.start()\<close> and \<open>m.groups()\<close>: the same
  scan as \<open>findall\<close>, which also reports where each match starts. \<open>k\<close> is the position
  of \<open>s\<close> in the whole subject.\<close>

function finditer :: "node list \<Rightarrow> ustr \<Rightarrow> nat \<Rightarrow> (nat \<times> ustr list) list" where
  "finditer p s k =
     (case re_match p s 0 [] of
        Some (rest, ms) \<Rightarrow>
          (k, map (group s ms) [1 ..< Suc (ngroups p)]) #
            (if length rest < length s then finditer p rest (k + (length s - length rest))
             else (case s of [] \<Rightarrow> [] | _ # s' \<Rightarrow> finditer p s' (Suc k)))
      | None \<Rightarrow> (case s of [] \<Rightarrow> [] | _ # s' \<Rightarrow> finditer p s' (Suc k)))"
  by pat_completeness auto
termination
  by (relation "measure (\<lambda>(p, s, k). length s)") auto

text \<open>\<open>re.sub(pattern, "", s)\<close>: every non-overlapping match is removed, the text between
  the matches is kept.\<close>

function re_sub_empty :: "node list \<Rightarrow> ustr \<Rightarrow> ustr" where
  "re_sub_empty p s =
     (case re_match p s 0 [] of
        Some (rest, ms) \<Rightarrow>
          (if length rest < length s then re_sub_empty p rest
           else (case s of [] \<Rightarrow> [] | x # s' \<Rightarrow> x # re_sub_empty p s'))
      | None \<Rightarrow> (case s of [] \<Rightarrow> [] | x # s' \<Rightarrow> x # re_sub_empty p s'))"
  by pat_completeness auto
termination
  by (relation "measure (\<lambda>(p, s). length s)") auto

text \<open>A literal string in a pattern.\<close>

definition lit :: "ustr \<Rightarrow> node list" where
  "lit s = map Chr s"

text \<open>The header marker: two asterisks and the two Arabic words that open a topic title
  (AIN NOON WAW ALEF NOON, a space, ALEF LAM MEEM WAW DAD WAW AIN).\<close>

definition TOPIC_HEADER :: ustr where
  "TOPIC_HEADER = [0x2A, 0x2A, 0x639, 0x646, 0x648, 0x627, 0x646, 0x20,
                   0x627, 0x644, 0x645, 0x648, 0x636, 0x648, 0x639]"

text \<open>With \<open>H\<close> for the header marker, \<open>topic_pattern\<close> is
  \<^verbatim>\<open>H.*?:\s*(.*?)\*\*(.*?)(?=H|\Z)\<close> under \<open>re.DOTALL\<close>.\<close>

definition topic_pattern :: "node list" where
  "topic_pattern =
     lit TOPIC_HEADER @ [Lazy Dot_all, Chr 0x3A, Star Space,
       Mark (Start 1), Lazy Dot_all, Mark (End 1), Chr 0x2A, Chr 0x2A,
       Mark (Start 2), Lazy Dot_all, Mark (End 2),
       Ahead [lit TOPIC_HEADER, [End_Z]]]"

text \<open>The Arabic word for "the question" (ALEF LAM SEEN WAW-WITH-HAMZA ALEF LAM) and a
  colon.\<close>

definition QUESTION_WORD :: ustr where
  "QUESTION_WORD = [0x627, 0x644, 0x633, 0x624, 0x627, 0x644, 0x3A]"

text \<open>With \<open>Q\<close> for the question word and \<open>a\<close>, \<open>b\<close>, \<open>c\<close>, \<open>d\<close> for the four option
  labels (ALEF-WITH-HAMZA-ABOVE, BEH, JEEM, DAL), \<open>question_pattern\<close> is
  \<^verbatim>\<open>(\d+)\.\s*Q\s*(.*?)\n\s*a\)\s*(.*?)\n\s*b\)\s*(.*?)\n\s*c\)\s*(.*?)\n\s*d\)\s*(.*?)(?=\n\s*\d+\.|\Z)\<close>
  under \<open>re.DOTALL\<close>.\<close>

definition question_pattern :: "node list" where
  "question_pattern =
     [Mark (Start 1), Plus Digit, Mark (End 1), Chr 0x2E, Star Space]
     @ lit QUESTION_WORD
     @ [Star Space, Mark (Start 2), Lazy Dot_all, Mark (End 2),
        Chr 0xA, Star Space, Chr 0x623, Chr 0x29, Star Space,
        Mark (Start 3), Lazy Dot_all, Mark (End 3),
        Chr 0xA, Star Space, Chr 0x628, Chr 0x29, Star Space,
        Mark (Start 4), Lazy Dot_all, Mark (End 4),
        Chr 0xA, Star Space, Chr 0x62C, Chr 0x29, Star Space,
        Mark (Start 5), Lazy Dot_all, Mark (End 5),
        Chr 0xA, Star Space, Chr 0x62F, Chr 0x29, Star Space,
        Mark (Start 6), Lazy Dot_all, Mark (End 6),
        Ahead [[Chr 0xA, Star Space, Plus Digit, Chr 0x2E], [End_Z]]]"

text \<open>The Arabic word for "the answer" (ALEF LAM ALEF-WITH-HAMZA-BELOW JEEM ALEF BEH
  TEH-MARBUTA), and the marker the inner loop looks for: this word, a space and the word
  for "the correct" (ALEF LAM SAD HAH YEH HAH TEH-MARBUTA).\<close>

definition ANSWER_WORD :: ustr where
  "ANSWER_WORD = [0x627, 0x644, 0x625, 0x62C, 0x627, 0x628, 0x629]"

definition MARKER :: ustr where
  "MARKER = ANSWER_WORD @ [0x20, 0x627, 0x644, 0x635, 0x62D, 0x64A, 0x62D, 0x629]"

text \<open>With \<open>W\<close> for the answer word, the pattern of the substitution is
  \<^verbatim>\<open>\s*\(.*?W.*?\)\<close>, without \<open>re.DOTALL\<close>.\<close>

definition marker_pattern :: "node list" where
  "marker_pattern = [Star Space, Chr 0x28, Lazy Dot] @ lit ANSWER_WORD @ [Lazy Dot, Chr 0x29]"

section \<open>The parser\<close>

text \<open>The only exception the parser could raise is the \<open>ValueError\<close> of a tuple of
  \<open>findall\<close> that does not unpack into the loop variables.\<close>

datatype error = ValueError

text \<open>The dictionaries the parser builds, with their keys.\<close>

record question_dict =
  question :: ustr
  options :: "ustr list"
  correct_index :: nat

record topic_dict =
  topic :: ustr
  questions :: "question_dict list"

text \<open>The loop over \<open>enumerate(raw_options)\<close>, with \<open>options\<close> and \<open>correct_index\<close> as
  its state: every option is stripped; an option that contains the marker loses its
  parenthesised segments around the answer word, is stripped again, and sets
  \<open>correct_index\<close> to its index.\<close>

fun options_loop :: "nat \<Rightarrow> ustr list \<Rightarrow> ustr list \<Rightarrow> nat option \<Rightarrow> ustr list \<times> nat option" where
  "options_loop idx [] opts ci = (opts, ci)"
| "options_loop idx (raw # rest) opts ci =
     (let option_clean = strip raw in
      if sublist MARKER option_clean
      then options_loop (idx + 1) rest
             (opts @ [strip (re_sub_empty marker_pattern option_clean)]) (Some idx)
      else options_loop (idx + 1) rest (opts @ [option_clean]) ci)"

text \<open>The loop over the tuples of \<open>question_pattern.findall(content)\<close>, with \<open>questions\<close>
  as its state: a block whose \<open>correct_index\<close> is still \<open>None\<close> is skipped.\<close>

fun questions_loop :: "ustr list list \<Rightarrow> question_dict list \<Rightarrow> error + question_dict list" where
  "questions_loop [] qs = Inr qs"
| "questions_loop (g # rest) qs =
     (case g of
        [_, question_text, opt_a, opt_b, opt_c, opt_d] \<Rightarrow>
          (case options_loop 0 [opt_a, opt_b, opt_c, opt_d] [] None of
             (opts, None) \<Rightarrow> questions_loop rest qs
           | (opts, Some ci) \<Rightarrow>
               questions_loop rest
                 (qs @ [\<lparr>question = strip question_text, options = opts, correct_index = ci\<rparr>]))
      | _ \<Rightarrow> Inl ValueError)"

text \<open>The loop over the tuples of \<open>topic_pattern.findall(text)\<close>, with \<open>topics\<close> as its
  state: a topic is appended when its list of questions is not empty.\<close>

fun topics_loop :: "ustr list list \<Rightarrow> topic_dict list \<Rightarrow> error + topic_dict list" where
  "topics_loop [] topics = Inr topics"
| "topics_loop (g # rest) topics =
     (case g of
        [topic_name, content] \<Rightarrow>
          (case questions_loop (findall question_pattern content) [] of
             Inl e \<Rightarrow> Inl e
           | Inr qs \<Rightarrow>
               if qs \<noteq> [] then topics_loop rest (topics @ [\<lparr>topic = strip topic_name, questions = qs\<rparr>])
               else topics_loop rest topics)
      | _ \<Rightarrow> Inl ValueError)"

definition parse_question_bank :: "ustr \<Rightarrow> error + topic_dict list" where
  "parse_question_bank text = topics_loop (findall topic_pattern text) []"

section \<open>What one iteration emits\<close>

text \<open>An option line carries the marker when the test of the inner loop succeeds on it.\<close>

definition carries :: "ustr \<Rightarrow> bool" where
  "carries raw = sublist MARKER (strip raw)"

text \<open>The indices, counted from \<open>i\<close>, of the option lines that carry the marker.\<close>

fun marked_from :: "nat \<Rightarrow> ustr list \<Rightarrow> nat list" where
  "marked_from i [] = []"
| "marked_from i (raw # rest) = (if carries raw then [i] else []) @ marked_from (Suc i) rest"

text \<open>The option text the inner loop stores for one option line.\<close>

definition clean_option :: "ustr \<Rightarrow> ustr" where
  "clean_option raw =
     (if carries raw then strip (re_sub_empty marker_pattern (strip raw)) else strip raw)"

text \<open>The question one tuple of \<open>question_pattern.findall\<close> adds to \<open>questions\<close>, if any.\<close>

definition emit_question :: "ustr list \<Rightarrow> question_dict option" where
  "emit_question g =
     (case g of
        [_, question_text, opt_a, opt_b, opt_c, opt_d] \<Rightarrow>
          (case options_loop 0 [opt_a, opt_b, opt_c, opt_d] [] None of
             (opts, None) \<Rightarrow> None
           | (opts, Some ci) \<Rightarrow>
               Some \<lparr>question = strip question_text, options = opts, correct_index = ci\<rparr>)
      | _ \<Rightarrow> None)"

text \<open>The topic one tuple of \<open>topic_pattern.findall\<close> adds to \<open>topics\<close>, if any.\<close>

definition emit_topic :: "ustr list \<Rightarrow> topic_dict option" where
  "emit_topic g =
     (case g of
        [topic_name, content] \<Rightarrow>
          (case questions_loop (findall question_pattern content) [] of
             Inl e \<Rightarrow> None
           | Inr qs \<Rightarrow>
               if qs \<noteq> [] then Some \<lparr>topic = strip topic_name, questions = qs\<rparr> else None)
      | _ \<Rightarrow> None)"

text \<open>A string without leading or trailing whitespace.\<close>

definition trimmed :: "ustr \<Rightarrow> bool" where
  "trimmed s = (s = [] \<or> (\<not> isspace (hd s) \<and> \<not> isspace (last s)))"

section \<open>Small inputs\<close>

text \<open>Option lines: \<open>A\<close> and \<open>B\<close> followed by the bracketed marker, \<open>B\<close> followed by the
  marker without brackets, and the unmarked \<open>A\<close>, \<open>C\<close>, \<open>D\<close>.\<close>

definition OPT_A_MARKED :: ustr where
  "OPT_A_MARKED = [0x41, 0x20, 0x28] @ MARKER @ [0x29]"

definition OPT_B_MARKED :: ustr where
  "OPT_B_MARKED = [0x42, 0x20, 0x28] @ MARKER @ [0x29]"


text \<open>A topic \<open>T\<close> with one question \<open>Q\<close>, numbered 1, whose first two option lines both
  carry the bracketed marker:
  header, \<open>: T**\<close>, newline, \<open>1. \<close>, question word, \<open> Q\<close>, newline, and the four option
  lines \<open>A (marker)\<close>, \<open>B (marker)\<close>, \<open>C\<close>, \<open>D\<close> behind their labels.\<close>

definition TWO_MARKERS_BODY :: ustr where
  "TWO_MARKERS_BODY =
     [0xA, 0x31, 0x2E, 0x20] @ QUESTION_WORD @ [0x20, 0x51, 0xA,
      0x623, 0x29, 0x20] @ OPT_A_MARKED @ [0xA,
      0x628, 0x29, 0x20] @ OPT_B_MARKED @ [0xA,
      0x62C, 0x29, 0x20, 0x43, 0xA,
      0x62F, 0x29, 0x20, 0x44]"

definition TWO_MARKERS_TEXT :: ustr where
  "TWO_MARKERS_TEXT = TOPIC_HEADER @ [0x3A, 0x20, 0x54, 0x2A, 0x2A] @ TWO_MARKERS_BODY"

text \<open>A topic whose header has nothing between the colon and the closing asterisks, with
  one question whose prompt is empty:
  header, \<open>:**\<close>, newline, \<open>1. \<close>, question word, newline, and the four option lines
  \<open>A (marker)\<close>, \<open>B\<close>, \<open>C\<close>, \<open>D\<close> behind their labels.\<close>

definition NO_NAME_TEXT :: ustr where
  "NO_NAME_TEXT =
     TOPIC_HEADER @ [0x3A, 0x2A, 0x2A, 0xA, 0x31, 0x2E, 0x20] @ QUESTION_WORD @ [0xA,
      0x623, 0x29, 0x20] @ OPT_A_MARKED @ [0xA,
      0x628, 0x29, 0x20, 0x42, 0xA,
      0x62C, 0x29, 0x20, 0x43, 0xA,
      0x62F, 0x29, 0x20, 0x44]"

text \<open>Building blocks for further inputs: an option line behind its label; a question block
  numbered \<open>n\<close> with prompt \<open>Q\<close> and the option lines \<open>a\<close>, \<open>b\<close>, \<open>c\<close>, \<open>d\<close>, every line
  preceded by a newline; the header line of a topic named \<open>T\<close>; the line \<open>D\<close> with the
  bracketed marker; and a line that is no option line, \<open>N\<close> with the bracketed marker.\<close>

definition OPTION_LINE :: "int \<Rightarrow> ustr \<Rightarrow> ustr" where
  "OPTION_LINE label opt = [label, 0x29, 0x20] @ opt"

definition QUESTION_BLOCK :: "int \<Rightarrow> ustr \<Rightarrow> ustr \<Rightarrow> ustr \<Rightarrow> ustr \<Rightarrow> ustr" where
  "QUESTION_BLOCK n a b c d =
     [0xA, n, 0x2E, 0x20] @ QUESTION_WORD @ [0x20, 0x51]
     @ [0xA] @ OPTION_LINE 0x623 a
     @ [0xA] @ OPTION_LINE 0x628 b
     @ [0xA] @ OPTION_LINE 0x62C c
     @ [0xA] @ OPTION_LINE 0x62F d"

definition TOPIC_T :: ustr where
  "TOPIC_T = TOPIC_HEADER @ [0x3A, 0x20, 0x54, 0x2A, 0x2A]"


definition NOTE_LINE :: ustr where
  "NOTE_LINE = [0x4E, 0x20, 0x28] @ MARKER @ [0x29]"

text \<open>A question whose four option lines are unmarked, followed by the note line.\<close>

definition UNMARKED_NOTE_BODY :: ustr where
  "UNMARKED_NOTE_BODY = QUESTION_BLOCK 0x31 [0x41] [0x42] [0x43] [0x44] @ [0xA] @ NOTE_LINE"

definition UNMARKED_NOTE_TEXT :: ustr where
  "UNMARKED_NOTE_TEXT = TOPIC_T @ UNMARKED_NOTE_BODY"

text \<open>An unmarked question followed by a question whose first option is marked.\<close>

definition UNMARKED_FIRST_BODY :: ustr where
  "UNMARKED_FIRST_BODY =
     QUESTION_BLOCK 0x31 [0x41] [0x42] [0x43] [0x44]
     @ QUESTION_BLOCK 0x32 OPT_A_MARKED [0x42] [0x43] [0x44]"

definition UNMARKED_FIRST_TEXT :: ustr where
  "UNMARKED_FIRST_TEXT = TOPIC_T @ UNMARKED_FIRST_BODY"





section \<open>The embedded sample\<close>

text \<open>The 906 code points of the string \<open>QUESTION_BANK\<close> of the program.\<close>

definition QUESTION_BANK :: ustr where
  "QUESTION_BANK =
    [0x2F, 0x2F, 0x20, 0x54, 0x68, 0x65, 0x20, 0x66, 0x6F, 0x6C, 0x6C, 0x6F, 0x77, 0x69, 0x6E, 0x67,
     0x20, 0x62, 0x6C, 0x6F, 0x63, 0x6B, 0x20, 0x63, 0x6F, 0x6E, 0x74, 0x61, 0x69, 0x6E, 0x73, 0x20,
     0x61, 0x6C, 0x6C, 0x20, 0x74, 0x68, 0x65, 0x20, 0x74, 0x6F, 0x70, 0x69, 0x63, 0x73, 0x20, 0x61,
     0x6E, 0x64, 0x20, 0x71, 0x75, 0x65, 0x73, 0x74, 0x69, 0x6F, 0x6E, 0x73, 0x20, 0x66, 0x6F, 0x72,
     0x20, 0x74, 0x68, 0x65, 0x20, 0x67, 0x61, 0x6D, 0x65, 0x2E, 0xA, 0x2F, 0x2F, 0x20, 0x50, 0x61,
     0x72, 0x73, 0x65, 0x20, 0x74, 0x68, 0x69, 0x73, 0x20, 0x64, 0x61, 0x74, 0x61, 0x20, 0x63, 0x61,
     0x72, 0x65, 0x66, 0x75, 0x6C, 0x6C, 0x79, 0x2E, 0xA, 0xA, 0x5B, 0x2D, 0x2D, 0x2D, 0x20, 0x623,
     0x644, 0x635, 0x642, 0x20, 0x647, 0x646, 0x627, 0x20, 0x643, 0x627, 0x645, 0x644, 0x20, 0x627, 0x644, 0x645,
     0x62D, 0x62A, 0x648, 0x649, 0x20, 0x627, 0x644, 0x646, 0x635, 0x64A, 0x20, 0x645, 0x646, 0x20, 0x645, 0x644,
     0x641, 0x20, 0x627, 0x644, 0x640, 0x20, 0x50, 0x44, 0x46, 0x20, 0x627, 0x644, 0x62E, 0x627, 0x635, 0x20,
     0x628, 0x643, 0x2E, 0x20, 0x62A, 0x623, 0x643, 0x62F, 0x20, 0x645, 0x646, 0x20, 0x623, 0x646, 0x20, 0x643,
     0x644, 0x20, 0x645, 0x648, 0x636, 0x648, 0x639, 0x20, 0x644, 0x647, 0x20, 0x639, 0x646, 0x648, 0x627, 0x646,
     0x20, 0x648, 0x627, 0x636, 0x62D, 0x20, 0x648, 0x627, 0x644, 0x623, 0x633, 0x626, 0x644, 0x629, 0x20, 0x645,
     0x631, 0x642, 0x645, 0x629, 0x20, 0x62A, 0x62D, 0x62A, 0x647, 0x20, 0x645, 0x639, 0x20, 0x62A, 0x62D, 0x62F,
     0x64A, 0x62F, 0x20, 0x627, 0x644, 0x625, 0x62C, 0x627, 0x628, 0x629, 0x20, 0x627, 0x644, 0x635, 0x62D, 0x64A,
     0x62D, 0x629, 0x2E, 0x20, 0x2D, 0x2D, 0x2D, 0x5D, 0xA, 0xA, 0x2A, 0x2A, 0x645, 0x62B, 0x627, 0x644,
     0x20, 0x639, 0x644, 0x649, 0x20, 0x627, 0x644, 0x62A, 0x646, 0x633, 0x64A, 0x642, 0x20, 0x627, 0x644, 0x630,
     0x64A, 0x20, 0x64A, 0x62C, 0x628, 0x20, 0x623, 0x646, 0x20, 0x64A, 0x643, 0x648, 0x646, 0x20, 0x639, 0x644,
     0x64A, 0x647, 0x20, 0x627, 0x644, 0x645, 0x62D, 0x62A, 0x648, 0x649, 0x20, 0x627, 0x644, 0x645, 0x644, 0x635,
     0x642, 0x3A, 0x2A, 0x2A, 0xA, 0xA, 0x2A, 0x2A, 0x639, 0x646, 0x648, 0x627, 0x646, 0x20, 0x627, 0x644,
     0x645, 0x648, 0x636, 0x648, 0x639, 0x20, 0x627, 0x644, 0x623, 0x648, 0x644, 0x3A, 0x20, 0x627, 0x644, 0x62D,
     0x631, 0x643, 0x629, 0x20, 0x627, 0x644, 0x645, 0x648, 0x62C, 0x64A, 0x629, 0x2A, 0x2A, 0xA, 0x31, 0x2E,
     0x20, 0x627, 0x644, 0x633, 0x624, 0x627, 0x644, 0x3A, 0x20, 0x645, 0x627, 0x20, 0x647, 0x64A, 0x20, 0x627,
     0x644, 0x638, 0x627, 0x647, 0x631, 0x629, 0x20, 0x627, 0x644, 0x62A, 0x64A, 0x20, 0x62A, 0x62D, 0x62F, 0x62B,
     0x20, 0x639, 0x646, 0x62F, 0x645, 0x627, 0x20, 0x62A, 0x645, 0x631, 0x20, 0x645, 0x648, 0x62C, 0x629, 0x20,
     0x635, 0x648, 0x62A, 0x64A, 0x629, 0x20, 0x645, 0x646, 0x20, 0x627, 0x644, 0x647, 0x648, 0x627, 0x621, 0x20,
     0x625, 0x644, 0x649, 0x20, 0x627, 0x644, 0x645, 0x627, 0x621, 0x61F, 0xA, 0x20, 0x20, 0x20, 0x20, 0x623,
     0x29, 0x20, 0x627, 0x646, 0x639, 0x643, 0x627, 0x633, 0xA, 0x20, 0x20, 0x20, 0x20, 0x628, 0x29, 0x20,
     0x627, 0x646, 0x643, 0x633, 0x627, 0x631, 0x20, 0x28, 0x627, 0x644, 0x625, 0x62C, 0x627, 0x628, 0x629, 0x20,
     0x627, 0x644, 0x635, 0x62D, 0x64A, 0x62D, 0x629, 0x29, 0xA, 0x20, 0x20, 0x20, 0x20, 0x62C, 0x29, 0x20,
     0x62D, 0x64A, 0x648, 0x62F, 0xA, 0x20, 0x20, 0x20, 0x20, 0x62F, 0x29, 0x20, 0x62A, 0x62F, 0x627, 0x62E,
     0x644, 0xA, 0xA, 0x32, 0x2E, 0x20, 0x627, 0x644, 0x633, 0x624, 0x627, 0x644, 0x3A, 0x20, 0x641, 0x64A,
     0x20, 0x627, 0x644, 0x62D, 0x631, 0x643, 0x629, 0x20, 0x627, 0x644, 0x62A, 0x648, 0x627, 0x641, 0x642, 0x64A,
     0x629, 0x20, 0x627, 0x644, 0x628, 0x633, 0x64A, 0x637, 0x629, 0x60C, 0x20, 0x62A, 0x643, 0x648, 0x646, 0x20,
     0x633, 0x631, 0x639, 0x629, 0x20, 0x627, 0x644, 0x62C, 0x633, 0x645, 0x20, 0x623, 0x642, 0x635, 0x649, 0x20,
     0x645, 0x627, 0x20, 0x64A, 0x645, 0x643, 0x646, 0x20, 0x639, 0x646, 0x62F, 0x2E, 0x2E, 0x2E, 0xA, 0x20,
     0x20, 0x20, 0x20, 0x623, 0x29, 0x20, 0x645, 0x648, 0x636, 0x639, 0x20, 0x627, 0x644, 0x627, 0x62A, 0x632,
     0x627, 0x646, 0x20, 0x28, 0x627, 0x644, 0x625, 0x62C, 0x627, 0x628, 0x629, 0x20, 0x627, 0x644, 0x635, 0x62D,
     0x64A, 0x62D, 0x629, 0x29, 0xA, 0x20, 0x20, 0x20, 0x20, 0x628, 0x29, 0x20, 0x623, 0x642, 0x635, 0x649,
     0x20, 0x625, 0x632, 0x627, 0x62D, 0x629, 0xA, 0x20, 0x20, 0x20, 0x20, 0x62C, 0x29, 0x20, 0x645, 0x646,
     0x62A, 0x635, 0x641, 0x20, 0x627, 0x644, 0x645, 0x633, 0x627, 0x641, 0x629, 0x20, 0x628, 0x64A, 0x646, 0x20,
     0x627, 0x644, 0x627, 0x62A, 0x632, 0x627, 0x646, 0x20, 0x648, 0x623, 0x642, 0x635, 0x649, 0x20, 0x625, 0x632,
     0x627, 0x62D, 0x629, 0xA, 0x20, 0x20, 0x20, 0x20, 0x62F, 0x29, 0x20, 0x623, 0x64A, 0x20, 0x646, 0x642,
     0x637, 0x629, 0xA, 0xA, 0x2A, 0x2A, 0x639, 0x646, 0x648, 0x627, 0x646, 0x20, 0x627, 0x644, 0x645, 0x648,
     0x636, 0x648, 0x639, 0x20, 0x627, 0x644, 0x62B, 0x627, 0x646, 0x64A, 0x3A, 0x20, 0x627, 0x644, 0x636, 0x648,
     0x621, 0x2A, 0x2A, 0xA, 0x31, 0x2E, 0x20, 0x627, 0x644, 0x633, 0x624, 0x627, 0x644, 0x3A, 0x20, 0x644,
     0x645, 0x627, 0x630, 0x627, 0x20, 0x64A, 0x628, 0x62F, 0x648, 0x20, 0x62D, 0x645, 0x627, 0x645, 0x20, 0x627,
     0x644, 0x633, 0x628, 0x627, 0x62D, 0x629, 0x20, 0x623, 0x642, 0x644, 0x20, 0x639, 0x645, 0x642, 0x64B, 0x627,
     0x20, 0x645, 0x645, 0x627, 0x20, 0x647, 0x648, 0x20, 0x639, 0x644, 0x64A, 0x647, 0x20, 0x641, 0x64A, 0x20,
     0x627, 0x644, 0x648, 0x627, 0x642, 0x639, 0x61F, 0xA, 0x20, 0x20, 0x20, 0x20, 0x623, 0x29, 0x20, 0x628,
     0x633, 0x628, 0x628, 0x20, 0x627, 0x646, 0x639, 0x643, 0x627, 0x633, 0x20, 0x627, 0x644, 0x636, 0x648, 0x621,
     0xA, 0x20, 0x20, 0x20, 0x20, 0x628, 0x29, 0x20, 0x628, 0x633, 0x628, 0x628, 0x20, 0x627, 0x646, 0x643,
     0x633, 0x627, 0x631, 0x20, 0x627, 0x644, 0x636, 0x648, 0x621, 0x20, 0x28, 0x627, 0x644, 0x625, 0x62C, 0x627,
     0x628, 0x629, 0x20, 0x627, 0x644, 0x635, 0x62D, 0x64A, 0x62D, 0x629, 0x29, 0xA, 0x20, 0x20, 0x20, 0x20,
     0x62C, 0x29, 0x20, 0x628, 0x633, 0x628, 0x628, 0x20, 0x62D, 0x64A, 0x648, 0x62F, 0x20, 0x627, 0x644, 0x636,
     0x648, 0x621, 0xA, 0x20, 0x20, 0x20, 0x20, 0x62F, 0x29, 0x20, 0x628, 0x633, 0x628, 0x628, 0x20, 0x62A,
     0x634, 0x62A, 0x62A, 0x20, 0x627, 0x644, 0x636, 0x648, 0x621, 0xA]"

section \<open>The matcher\<close>

declare findall.simps [simp del] finditer.simps [simp del] re_sub_empty.simps [simp del]

lemma re_match_suffix:
  "re_match p s i ms = Some (r, ms') \<Longrightarrow> suffix r s"
proof (induction p s i ms arbitrary: r ms' rule: re_match.induct)
  case (1 s i ms)
  then show ?case by simp
next
  case (2 c p i ms)
  then show ?case by simp
next
  case (3 c p x s i ms)
  then show ?case by (auto split: if_splits intro: suffix_ConsI)
next
  case (4 k p i ms)
  then show ?case by simp
next
  case (5 k p x s i ms)
  then show ?case by (auto split: if_splits intro: suffix_ConsI)
next
  case (6 k p i ms)
  then show ?case by simp
next
  case (7 k p x s i ms)
  show ?case
  proof (cases "in_cls k x")
    case True
    show ?thesis
    proof (cases "re_match (Star k # p) s (Suc i) ms")
      case None
      with True 7 show ?thesis by simp
    next
      case (Some a)
      with True 7 show ?thesis by (cases a) (auto intro: suffix_ConsI)
    qed
  next
    case False
    with 7 show ?thesis by simp
  qed
next
  case (8 k p i ms)
  then show ?case by simp
next
  case (9 k p x s i ms)
  show ?case
  proof (cases "re_match p (x # s) i ms")
    case None
    with 9 show ?thesis by (auto split: if_splits intro: suffix_ConsI)
  next
    case (Some a)
    with 9 show ?thesis by (cases a) auto
  qed
next
  case (10 m p s i ms)
  then show ?case by simp
next
  case (11 alts p s i ms)
  then show ?case by (simp split: if_splits)
next
  case (12 p s i ms)
  then show ?case by (simp split: if_splits)
qed

text \<open>The three patterns of the parser consume at least one character.\<close>

lemma re_match_Chr_progress:
  "re_match (Chr c # p) s i ms = Some (r, ms') \<Longrightarrow> length r < length s"
  by (cases s) (auto split: if_splits dest!: re_match_suffix suffix_length_le)

lemma re_match_Plus_progress:
  "re_match (Plus k # p) s i ms = Some (r, ms') \<Longrightarrow> length r < length s"
  by (cases s) (auto split: if_splits dest!: re_match_suffix suffix_length_le)

lemma topic_pattern_progress:
  "re_match topic_pattern s i ms = Some (r, ms') \<Longrightarrow> length r < length s"
  unfolding topic_pattern_def lit_def TOPIC_HEADER_def
  by (simp only: list.map append_Cons) (rule re_match_Chr_progress)

lemma question_pattern_progress:
  "re_match question_pattern s i ms = Some (r, ms') \<Longrightarrow> length r < length s"
  unfolding question_pattern_def
  by (simp only: append_Cons re_match.simps) (rule re_match_Plus_progress)

lemma re_match_Star_Chr_progress:
  "re_match (Star k # Chr c # p) s i ms = Some (r, ms') \<Longrightarrow> length r < length s"
proof (induction s arbitrary: i)
  case Nil
  then show ?case by simp
next
  case (Cons x s)
  show ?case
  proof (cases "in_cls k x \<and> re_match (Star k # Chr c # p) s (Suc i) ms \<noteq> None")
    case True
    with Cons.prems have "re_match (Star k # Chr c # p) s (Suc i) ms = Some (r, ms')"
      by auto
    then have "length r < length s" by (rule Cons.IH)
    then show ?thesis by simp
  next
    case False
    with Cons.prems have "re_match (Chr c # p) (x # s) i ms = Some (r, ms')"
      by (auto split: if_splits option.splits)
    then show ?thesis by (rule re_match_Chr_progress)
  qed
qed

lemma marker_pattern_progress:
  "re_match marker_pattern s i ms = Some (r, ms') \<Longrightarrow> length r < length s"
  unfolding marker_pattern_def
  by (simp only: append_Cons) (rule re_match_Star_Chr_progress)

lemma findall_Nil: "findall p [] = (case re_match p [] 0 [] of
     Some (rest, ms) \<Rightarrow> [map (group [] ms) [1 ..< Suc (ngroups p)]] | None \<Rightarrow> [])"
  by (subst findall.simps) (simp split: option.splits)

lemma findall_None: "re_match p (x # s) 0 [] = None \<Longrightarrow> findall p (x # s) = findall p s"
  by (subst findall.simps) simp

lemma findall_Some:
  "re_match p s 0 [] = Some (rest, ms) \<Longrightarrow> length rest < length s \<Longrightarrow>
   findall p s = map (group s ms) [1 ..< Suc (ngroups p)] # findall p rest"
  by (subst findall.simps) simp

lemma findall_Some_stuck:
  "re_match p (x # s) 0 [] = Some (rest, ms) \<Longrightarrow> \<not> length rest < length (x # s) \<Longrightarrow>
   findall p (x # s) = map (group (x # s) ms) [1 ..< Suc (ngroups p)] # findall p s"
  by (subst findall.simps) simp

lemma finditer_Nil: "finditer p [] k = (case re_match p [] 0 [] of
     Some (rest, ms) \<Rightarrow> [(k, map (group [] ms) [1 ..< Suc (ngroups p)])] | None \<Rightarrow> [])"
  by (subst finditer.simps) (simp split: option.splits)

lemma finditer_None:
  "re_match p (x # s) 0 [] = None \<Longrightarrow> finditer p (x # s) k = finditer p s (Suc k)"
  by (subst finditer.simps) simp

lemma finditer_Some:
  "re_match p s 0 [] = Some (rest, ms) \<Longrightarrow> length rest < length s \<Longrightarrow>
   finditer p s k = (k, map (group s ms) [1 ..< Suc (ngroups p)])
      # finditer p rest (k + (length s - length rest))"
  by (subst finditer.simps) simp

lemma finditer_Some_stuck:
  "re_match p (x # s) 0 [] = Some (rest, ms) \<Longrightarrow> \<not> length rest < length (x # s) \<Longrightarrow>
   finditer p (x # s) k = (k, map (group (x # s) ms) [1 ..< Suc (ngroups p)])
      # finditer p s (Suc k)"
  by (subst finditer.simps) simp

lemma findall_finditer: "findall p s = map snd (finditer p s k)"
proof (induction "length s" arbitrary: s k rule: less_induct)
  case less
  show ?case
  proof (cases s)
    case Nil
    then show ?thesis by (simp add: findall_Nil finditer_Nil split: option.splits)
  next
    case (Cons x s')
    show ?thesis
    proof (cases "re_match p s 0 []")
      case None
      then show ?thesis
        using Cons less[of s' "Suc k"] by (simp add: findall_None finditer_None)
    next
      case (Some a)
      obtain rest ms where a: "a = (rest, ms)" by (cases a)
      show ?thesis
      proof (cases "length rest < length s")
        case True
        then show ?thesis
          using Some a less[of rest] by (simp add: findall_Some finditer_Some)
      next
        case False
        then show ?thesis
          using Some a Cons less[of s' "Suc k"]
          by (simp add: findall_Some_stuck finditer_Some_stuck)
      qed
    qed
  qed
qed

lemma findall_length:
  "g \<in> set (findall p s) \<Longrightarrow> length g = ngroups p"
proof (induction "length s" arbitrary: s rule: less_induct)
  case less
  show ?case
  proof (cases s)
    case Nil
    with less.prems show ?thesis by (auto simp: findall_Nil split: option.splits)
  next
    case (Cons x s')
    show ?thesis
    proof (cases "re_match p s 0 []")
      case None
      then show ?thesis
        using Cons less.prems less.hyps[of s'] by (simp add: findall_None)
    next
      case (Some a)
      obtain rest ms where a: "a = (rest, ms)" by (cases a)
      show ?thesis
      proof (cases "length rest < length s")
        case True
        then show ?thesis
          using Some a less.prems less.hyps[of rest] by (auto simp: findall_Some)
      next
        case False
        then show ?thesis
          using Some a Cons less.prems less.hyps[of s']
          by (auto simp: findall_Some_stuck)
      qed
    qed
  qed
qed

section \<open>The loops\<close>

lemma options_loop_eq:
  "options_loop idx raws opts ci =
     (opts @ map clean_option raws,
      (if marked_from idx raws = [] then ci else Some (last (marked_from idx raws))))"
proof (induction raws arbitrary: idx opts ci)
  case Nil
  then show ?case by simp
next
  case (Cons raw raws)
  show ?case
    by (simp add: Cons clean_option_def carries_def Let_def)
qed

lemma questions_loop_step:
  "questions_loop ([n, q, a, b, c, d] # rest) qs =
     (case emit_question [n, q, a, b, c, d] of
        None \<Rightarrow> questions_loop rest qs
      | Some qd \<Rightarrow> questions_loop rest (qs @ [qd]))"
  by (simp add: emit_question_def split: prod.splits option.splits)

lemma length6:
  "length g = 6 \<Longrightarrow> \<exists>n q a b c d. g = [n, q, a, b, c, d]"
  by (auto simp: length_Suc_conv eval_nat_numeral)

lemma length2:
  "length g = 2 \<Longrightarrow> \<exists>a b. g = [a, b]"
  by (auto simp: length_Suc_conv eval_nat_numeral)

lemma questions_loop_eq:
  "\<forall>g\<in>set gs. length g = 6 \<Longrightarrow>
   questions_loop gs qs = Inr (qs @ List.map_filter emit_question gs)"
proof (induction gs arbitrary: qs)
  case Nil
  then show ?case by (simp add: map_filter_simps)
next
  case (Cons g gs)
  then obtain n q a b c d where g: "g = [n, q, a, b, c, d]"
    using length6[of g] by auto
  from Cons.prems have rest: "\<forall>g\<in>set gs. length g = 6" by simp
  show ?case
    unfolding g questions_loop_step
    by (cases "emit_question [n, q, a, b, c, d]")
       (simp_all add: Cons.IH[OF rest] map_filter_simps)
qed

lemma ngroups_question_pattern: "ngroups question_pattern = 6"
  by (simp add: ngroups_def question_pattern_def lit_def QUESTION_WORD_def)

lemma ngroups_topic_pattern: "ngroups topic_pattern = 2"
  by (simp add: ngroups_def topic_pattern_def lit_def TOPIC_HEADER_def)

lemma questions_of_content:
  "questions_loop (findall question_pattern content) [] =
     Inr (List.map_filter emit_question (findall question_pattern content))"
  using questions_loop_eq[of "findall question_pattern content" "[]"]
  by (simp add: findall_length ngroups_question_pattern)

lemma topics_loop_step:
  "topics_loop ([name, content] # rest) topics =
     (case emit_topic [name, content] of
        None \<Rightarrow> topics_loop rest topics
      | Some t \<Rightarrow> topics_loop rest (topics @ [t]))"
  by (simp add: emit_topic_def questions_of_content)

lemma topics_loop_eq:
  "\<forall>g\<in>set gs. length g = 2 \<Longrightarrow>
   topics_loop gs topics = Inr (topics @ List.map_filter emit_topic gs)"
proof (induction gs arbitrary: topics)
  case Nil
  then show ?case by (simp add: map_filter_simps)
next
  case (Cons g gs)
  then obtain a b where g: "g = [a, b]"
    using length2[of g] by auto
  from Cons.prems have rest: "\<forall>g\<in>set gs. length g = 2" by simp
  show ?case
    unfolding g topics_loop_step
    by (cases "emit_topic [a, b]")
       (simp_all add: Cons.IH[OF rest] map_filter_simps)
qed

lemma parse_eq:
  "parse_question_bank text = Inr (List.map_filter emit_topic (findall topic_pattern text))"
  unfolding parse_question_bank_def
  using topics_loop_eq[of "findall topic_pattern text" "[]"]
  by (simp add: findall_length ngroups_topic_pattern)

lemma trimmed_strip: "trimmed (strip s)"
proof -
  define t where "t = dropWhile isspace s"
  define u where "u = dropWhile isspace (rev t)"
  have s: "strip s = rev u" by (simp add: strip_def t_def u_def)
  show ?thesis
  proof (cases "u = []")
    case True
    then show ?thesis by (simp add: s trimmed_def)
  next
    case False
    then have hu: "\<not> isspace (hd u)"
      unfolding u_def by (rule hd_dropWhile)
    from False have tne: "t \<noteq> []" by (auto simp: u_def)
    then have ht: "\<not> isspace (hd t)"
      unfolding t_def by (rule hd_dropWhile)
    have "suffix u (rev t)" unfolding u_def by (rule suffix_dropWhile)
    then obtain v where "rev t = v @ u" by (auto simp: suffix_def)
    with False have "last u = last (rev t)" by simp
    also have "\<dots> = hd t" using tne by (simp add: last_rev)
    finally have "last u = hd t" .
    with False hu ht show ?thesis
      by (simp add: s trimmed_def hd_rev last_rev)
  qed
qed

lemma sublist_strip: "sublist (strip s) s"
proof -
  have "suffix (dropWhile isspace (rev (dropWhile isspace s))) (rev (dropWhile isspace s))"
    by (rule suffix_dropWhile)
  then have "prefix (strip s) (dropWhile isspace s)"
    by (simp add: strip_def suffix_to_prefix)
  moreover have "suffix (dropWhile isspace s) s" by (rule suffix_dropWhile)
  ultimately show ?thesis
    by (meson prefix_imp_sublist suffix_imp_sublist sublist_order.order.trans)
qed

lemma marked_from_bounds:
  "i \<in> set (marked_from k raws) \<Longrightarrow> k \<le> i \<and> i < k + length raws"
proof (induction raws arbitrary: k)
  case Nil
  then show ?case by simp
next
  case (Cons raw raws)
  from Cons.prems consider "i = k" | "i \<in> set (marked_from (Suc k) raws)"
    by (auto split: if_splits)
  then show ?case
  proof cases
    case 1
    then show ?thesis by simp
  next
    case 2
    from Cons.IH[OF 2] show ?thesis by simp
  qed
qed

lemma emit_question_Some:
  assumes "emit_question g = Some qd"
  obtains n q a b c d where "g = [n, q, a, b, c, d]"
    and "question qd = strip q"
    and "options qd = map clean_option [a, b, c, d]"
    and "marked_from 0 [a, b, c, d] \<noteq> []"
    and "correct_index qd = last (marked_from 0 [a, b, c, d])"
proof -
  from assms have "length g = 6"
    by (auto simp: emit_question_def split: list.splits)
  then obtain n q a b c d where g: "g = [n, q, a, b, c, d]"
    using length6 by blast
  define m where "m = marked_from 0 [a, b, c, d]"
  have ol: "options_loop 0 [a, b, c, d] [] None =
      (map clean_option [a, b, c, d], if m = [] then None else Some (last m))"
    unfolding m_def by (simp only: options_loop_eq append_Nil)
  from assms have "m \<noteq> [] \<and> qd = \<lparr>question = strip q,
      options = map clean_option [a, b, c, d], correct_index = last m\<rparr>"
    unfolding g emit_question_def list.case ol
    by (auto split: if_splits)
  then show thesis
    using that[of n q a b c d] g unfolding m_def by simp
qed

lemma emit_topic_Some:
  assumes "emit_topic g = Some t"
  obtains name content where "g = [name, content]"
    and "topic t = strip name"
    and "questions t = List.map_filter emit_question (findall question_pattern content)"
    and "questions t \<noteq> []"
proof -
  from assms have "length g = 2"
    by (auto simp: emit_topic_def split: list.splits)
  then obtain name content where g: "g = [name, content]"
    using length2 by blast
  from assms have "questions t \<noteq> [] \<and> t = \<lparr>topic = strip name,
      questions = List.map_filter emit_question (findall question_pattern content)\<rparr>"
    unfolding g emit_topic_def list.case questions_of_content
    by (auto split: if_splits)
  then have 1: "questions t \<noteq> []" and 2: "t = \<lparr>topic = strip name,
      questions = List.map_filter emit_question (findall question_pattern content)\<rparr>"
    by blast+
  show thesis
    by (rule that[OF g _ _ 1]) (simp_all add: 2)
qed

lemma in_map_filter:
  "y \<in> set (List.map_filter f xs) \<Longrightarrow> \<exists>x\<in>set xs. f x = Some y"
  by (auto simp: List.map_filter_def)

lemma last_marked_from:
  "marked_from k raws \<noteq> [] \<Longrightarrow> last (marked_from k raws) = Max (set (marked_from k raws))"
proof (induction raws arbitrary: k)
  case Nil
  then show ?case by simp
next
  case (Cons raw raws)
  show ?case
  proof (cases "marked_from (Suc k) raws = []")
    case True
    with Cons.prems show ?thesis by (simp split: if_splits)
  next
    case False
    have le: "k \<le> Max (set (marked_from (Suc k) raws))"
    proof -
      from False obtain i where i: "i \<in> set (marked_from (Suc k) raws)"
        by (cases "marked_from (Suc k) raws") auto
      then have "k \<le> i" using marked_from_bounds[OF i] by simp
      also have "i \<le> Max (set (marked_from (Suc k) raws))" using i by simp
      finally show ?thesis .
    qed
    have fin: "finite (set (marked_from (Suc k) raws))" by simp
    have nes: "set (marked_from (Suc k) raws) \<noteq> {}" using False by simp
    show ?thesis
    proof (cases "carries raw")
      case True
      have "Max (insert k (set (marked_from (Suc k) raws))) = Max (set (marked_from (Suc k) raws))"
        using Max_insert[OF fin nes, of k] le by (simp add: max_def)
      with True False Cons.IH[OF False] show ?thesis by simp
    next
      case nc: False
      with False Cons.IH[OF False] show ?thesis by simp
    qed
  qed
qed

text \<open>Claim C8. The parser is total and never raises: the matcher, the scans and the
  loops are total functions, and for every input the result is a list of topics, never the
  \<open>ValueError\<close> of a tuple that does not unpack, since every tuple of \<open>findall\<close> has as
  many components as its pattern has groups.\<close>

theorem parse_never_fails:
  "\<exists>topics. parse_question_bank text = Inr topics"
  by (simp add: parse_eq)

lemma carries_sublist:
  assumes "carries raw"
  shows "sublist MARKER raw"
proof -
  from assms have "sublist MARKER (strip raw)" by (simp add: carries_def)
  from this sublist_strip show ?thesis by (rule sublist_order.order.trans)
qed

text \<open>Claim C7. A topic block whose question list is empty after all its question blocks
  were processed adds nothing to the output: the loop over the topic blocks gives the same
  result with the block as without it; and every topic of the output has a question.\<close>

theorem empty_topic_dropped:
  "(questions_loop (findall question_pattern content) [] = Inr [] \<longrightarrow>
      topics_loop (pre @ [name, content] # rest) topics = topics_loop (pre @ rest) topics)
   \<and> (parse_question_bank text = Inr ts \<longrightarrow> (\<forall>t\<in>set ts. questions t \<noteq> []))"
proof (intro conjI impI)
  assume e: "questions_loop (findall question_pattern content) [] = Inr []"
  show "topics_loop (pre @ [name, content] # rest) topics = topics_loop (pre @ rest) topics"
  proof (induction pre arbitrary: topics)
    case Nil
    from e show ?case by simp
  next
    case (Cons g pre)
    show ?case
      by (simp add: Cons split: list.splits sum.splits)
  qed
next
  assume "parse_question_bank text = Inr ts"
  then have ts: "ts = List.map_filter emit_topic (findall topic_pattern text)"
    by (simp add: parse_eq)
  show "\<forall>t\<in>set ts. questions t \<noteq> []"
  proof
    fix t assume "t \<in> set ts"
    then obtain g where "emit_topic g = Some t"
      unfolding ts by (blast dest: in_map_filter)
    then show "questions t \<noteq> []" by (rule emit_topic_Some)
  qed
qed

text \<open>Claim C5, as amended. Every topic of the output has a name without leading or
  trailing whitespace, and every question of it has exactly four options and a
  \<open>correct_index\<close> from 0 to 3. The name and the prompt may be empty.\<close>

theorem output_record_shape:
  assumes "parse_question_bank text = Inr ts"
  shows "\<forall>t\<in>set ts. trimmed (topic t) \<and>
           (\<forall>qd\<in>set (questions t). length (options qd) = 4 \<and> correct_index qd < 4)"
proof (intro ballI conjI)
  from assms have ts: "ts = List.map_filter emit_topic (findall topic_pattern text)"
    by (simp add: parse_eq)
  fix t assume "t \<in> set ts"
  then obtain g where g: "emit_topic g = Some t"
    unfolding ts by (blast dest: in_map_filter)
  from g show "trimmed (topic t)"
    by (rule emit_topic_Some) (simp add: trimmed_strip)
  fix qd assume qd: "qd \<in> set (questions t)"
  from g obtain content where
    "questions t = List.map_filter emit_question (findall question_pattern content)"
    by (rule emit_topic_Some)
  with qd obtain h where h: "emit_question h = Some qd"
    by (auto dest: in_map_filter)
  from h show "length (options qd) = 4"
    by (rule emit_question_Some) simp
  from h obtain a b c d where ne: "marked_from 0 [a, b, c, d] \<noteq> []"
    and ci: "correct_index qd = last (marked_from 0 [a, b, c, d])"
    by (rule emit_question_Some)
  from ne have "last (marked_from 0 [a, b, c, d]) \<in> set (marked_from 0 [a, b, c, d])"
    by (rule last_in_set)
  from marked_from_bounds[OF this] ci show "correct_index qd < 4" by simp
qed

section \<open>Inputs without a topic header\<close>

lemma re_match_lit_prefix:
  "re_match (lit h @ p) s i ms = Some r \<Longrightarrow> prefix h s"
proof (induction h arbitrary: s i)
  case Nil
  then show ?case by simp
next
  case (Cons c h)
  then show ?case
    by (cases s) (auto simp: lit_def split: if_splits)
qed

lemma topic_pattern_prefix:
  "re_match topic_pattern s i ms = Some r \<Longrightarrow> prefix TOPIC_HEADER s"
  unfolding topic_pattern_def by (rule re_match_lit_prefix)

lemma findall_no_header:
  "\<not> sublist TOPIC_HEADER s \<Longrightarrow> findall topic_pattern s = []"
proof (induction s)
  case Nil
  have "re_match topic_pattern [] 0 [] = None"
    by (simp add: topic_pattern_def lit_def TOPIC_HEADER_def)
  then show ?case by (simp add: findall_Nil)
next
  case (Cons x s)
  from Cons.prems have np: "\<not> prefix TOPIC_HEADER (x # s)" and ns: "\<not> sublist TOPIC_HEADER s"
    by (simp_all add: sublist_Cons_right)
  have "re_match topic_pattern (x # s) 0 [] = None"
  proof (cases "re_match topic_pattern (x # s) 0 []")
    case None
    then show ?thesis .
  next
    case (Some r)
    with np topic_pattern_prefix show ?thesis by blast
  qed
  then show ?case by (simp add: findall_None Cons.IH[OF ns])
qed

text \<open>Claim C9. An input in which the header marker, the literal that opens
  \<open>topic_pattern\<close>, does not occur gives the empty list of topics.\<close>

theorem no_header_no_topics:
  "\<not> sublist TOPIC_HEADER text \<Longrightarrow> parse_question_bank text = Inr []"
  by (simp add: parse_eq findall_no_header)

section \<open>Removing the bracketed marker\<close>
















lemma sublist_rstrip: "sublist (rev (dropWhile isspace (rev s))) s"
proof -
  have "suffix (dropWhile isspace (rev s)) (rev s)" by (rule suffix_dropWhile)
  then have "prefix (rev (dropWhile isspace (rev s))) s"
    by (simp add: suffix_to_prefix)
  then show ?thesis by (rule prefix_imp_sublist)
qed


section \<open>Order of the output\<close>

lemma suffix_drop: "suffix r s \<Longrightarrow> r = drop (length s - length r) s"
  by (auto simp: suffix_def)

lemma finditer_positions:
  "(pos, g) \<in> set (finditer p s k) \<Longrightarrow> k \<le> pos"
proof (induction "length s" arbitrary: s k rule: less_induct)
  case less
  show ?case
  proof (cases s)
    case Nil
    with less.prems show ?thesis by (auto simp: finditer_Nil split: option.splits)
  next
    case (Cons x s')
    show ?thesis
    proof (cases "re_match p s 0 []")
      case None
      then show ?thesis
        using Cons less.prems less.hyps[of s' "Suc k"] by (auto simp: finditer_None)
    next
      case (Some a)
      obtain rest ms where a: "a = (rest, ms)" by (cases a)
      show ?thesis
      proof (cases "length rest < length s")
        case True
        then show ?thesis
          using Some a less.prems less.hyps[of rest "k + (length s - length rest)"]
          by (auto simp: finditer_Some)
      next
        case False
        then show ?thesis
          using Some a Cons less.prems less.hyps[of s' "Suc k"]
          by (auto simp: finditer_Some_stuck)
      qed
    qed
  qed
qed

lemma finditer_sorted:
  "sorted_wrt (<) (map fst (finditer p s k))"
proof (induction "length s" arbitrary: s k rule: less_induct)
  case less
  show ?case
  proof (cases s)
    case Nil
    then show ?thesis by (simp add: finditer_Nil split: option.splits)
  next
    case (Cons x s')
    show ?thesis
    proof (cases "re_match p s 0 []")
      case None
      then show ?thesis
        using Cons less.hyps[of s' "Suc k"] by (simp add: finditer_None)
    next
      case (Some a)
      obtain rest ms where a: "a = (rest, ms)" by (cases a)
      show ?thesis
      proof (cases "length rest < length s")
        case True
        then show ?thesis
          using Some a less.hyps[of rest "k + (length s - length rest)"]
            finditer_positions[of _ _ p rest "k + (length s - length rest)"]
          by (fastforce simp: finditer_Some)
      next
        case False
        then show ?thesis
          using Some a Cons less.hyps[of s' "Suc k"]
            finditer_positions[of _ _ p s' "Suc k"]
          by (fastforce simp: finditer_Some_stuck)
      qed
    qed
  qed
qed

lemma finditer_matches:
  "(pos, g) \<in> set (finditer p s k) \<Longrightarrow> s = drop k text \<Longrightarrow>
   re_match p (drop pos text) 0 [] \<noteq> None"
proof (induction "length s" arbitrary: s k rule: less_induct)
  case less
  show ?case
  proof (cases s)
    case Nil
    with less.prems(1) have "re_match p [] 0 [] \<noteq> None \<and> pos = k"
      by (cases "re_match p [] 0 []") (auto simp: finditer_Nil)
    with Nil less.prems(2) show ?thesis by simp
  next
    case (Cons x s')
    with less.prems(2) have s': "s' = drop (Suc k) text"
      by (metis drop_Suc list.sel(3) tl_drop)
    show ?thesis
    proof (cases "re_match p s 0 []")
      case None
      then show ?thesis
        using Cons less.prems(1) less.hyps[of s' "Suc k", OF _ _ s']
        by (auto simp: finditer_None)
    next
      case (Some a)
      obtain rest ms where a: "a = (rest, ms)" by (cases a)
      show ?thesis
      proof (cases "length rest < length s")
        case True
        have "suffix rest s" using Some a re_match_suffix by blast
        then have "rest = drop (length s - length rest) s" by (rule suffix_drop)
        then have rest: "rest = drop (k + (length s - length rest)) text"
          using less.prems(2) by (simp add: add.commute)
        from less.prems(1) consider "pos = k"
          | "(pos, g) \<in> set (finditer p rest (k + (length s - length rest)))"
          using Some a True by (auto simp: finditer_Some)
        then show ?thesis
        proof cases
          case 1
          then show ?thesis using Some less.prems(2) by simp
        next
          case 2
          then show ?thesis using less.hyps[OF True _ rest] by blast
        qed
      next
        case False
        from less.prems(1) consider "pos = k" | "(pos, g) \<in> set (finditer p s' (Suc k))"
          using Some a False Cons by (auto simp: finditer_Some_stuck)
        then show ?thesis
        proof cases
          case 1
          then show ?thesis using Some less.prems(2) by simp
        next
          case 2
          then show ?thesis using less.hyps[of s' "Suc k", OF _ _ s'] Cons by auto
        qed
      qed
    qed
  qed
qed

lemma questions_loop_label:
  "questions_loop (map (\<lambda>g. label g # tl g) gs) qs = questions_loop gs qs"
proof (induction gs arbitrary: qs)
  case Nil
  show ?case by simp
next
  case (Cons g gs)
  show ?case
  proof (cases g)
    case Nil
    then show ?thesis by simp
  next
    case (Cons n t)
    have "questions_loop ((label g # t) # map (\<lambda>g. label g # tl g) gs) qs
        = questions_loop ((n # t) # gs) qs"
      by (simp add: Cons.IH split: list.splits prod.splits option.splits)
    then show ?thesis using Cons by simp
  qed
qed

text \<open>Claim C6. The output keeps the order of the source. The topics are the topics emitted
  for the matches of \<open>topic_pattern\<close>, match by match; the matches start at strictly
  increasing positions of the text, each at an occurrence of the header marker. The
  questions of a topic are the questions emitted for the matches of \<open>question_pattern\<close> in
  its body, match by match, and these start at strictly increasing positions of the body,
  each where the pattern matches. The numeric label of a block has no influence: replacing
  the labels by any others leaves the result of the loop unchanged.\<close>

theorem output_follows_source_order:
  "parse_question_bank text
      = Inr (List.map_filter emit_topic (map snd (finditer topic_pattern text 0)))
   \<and> sorted_wrt (<) (map fst (finditer topic_pattern text 0))
   \<and> (\<forall>(pos, g)\<in>set (finditer topic_pattern text 0). prefix TOPIC_HEADER (drop pos text))
   \<and> questions_loop (findall question_pattern content) []
      = Inr (List.map_filter emit_question (map snd (finditer question_pattern content 0)))
   \<and> sorted_wrt (<) (map fst (finditer question_pattern content 0))
   \<and> (\<forall>(pos, g)\<in>set (finditer question_pattern content 0).
         re_match question_pattern (drop pos content) 0 [] \<noteq> None)
   \<and> questions_loop (map (\<lambda>g. label g # tl g) gs) qs = questions_loop gs qs"
proof (intro conjI)
  show "parse_question_bank text
      = Inr (List.map_filter emit_topic (map snd (finditer topic_pattern text 0)))"
    using parse_eq[of "text"] findall_finditer[of topic_pattern "text" 0] by simp
  show "questions_loop (findall question_pattern content) []
      = Inr (List.map_filter emit_question (map snd (finditer question_pattern content 0)))"
    using questions_of_content[of content] findall_finditer[of question_pattern content 0]
    by simp
  show "\<forall>(pos, g)\<in>set (finditer topic_pattern text 0). prefix TOPIC_HEADER (drop pos text)"
  proof (clarify)
    fix pos g assume "(pos, g) \<in> set (finditer topic_pattern text 0)"
    then have "re_match topic_pattern (drop pos text) 0 [] \<noteq> None"
      by (rule finditer_matches) simp
    then show "prefix TOPIC_HEADER (drop pos text)"
      using topic_pattern_prefix by blast
  qed
  show "\<forall>(pos, g)\<in>set (finditer question_pattern content 0).
         re_match question_pattern (drop pos content) 0 [] \<noteq> None"
  proof -
    have "re_match question_pattern (drop pos content) 0 [] \<noteq> None"
      if "(pos, g) \<in> set (finditer question_pattern content 0)" for pos g
      using that by (rule finditer_matches) simp
    then show ?thesis by blast
  qed
qed (rule finditer_sorted questions_loop_label)+

section \<open>Blocks in the text\<close>

lemma map_filter_append:
  "List.map_filter f (xs @ ys) = List.map_filter f xs @ List.map_filter f ys"
  by (simp add: List.map_filter_def)

lemma questions_split:
  assumes "findall question_pattern content = pre @ g # rest"
  shows "questions_loop (findall question_pattern content) [] =
     Inr (List.map_filter emit_question pre
          @ (case emit_question g of None \<Rightarrow> [] | Some qd \<Rightarrow> [qd])
          @ List.map_filter emit_question rest)"
proof -
  have "List.map_filter emit_question (pre @ g # rest) =
      List.map_filter emit_question pre
      @ (case emit_question g of None \<Rightarrow> [] | Some qd \<Rightarrow> [qd])
      @ List.map_filter emit_question rest"
    by (simp add: map_filter_append split: option.splits)
  with questions_of_content[of content] assms show ?thesis by simp
qed

lemma parse_split:
  assumes "findall topic_pattern s = tpre @ g # trest"
  shows "parse_question_bank s =
     Inr (List.map_filter emit_topic tpre
          @ (case emit_topic g of None \<Rightarrow> [] | Some t \<Rightarrow> [t])
          @ List.map_filter emit_topic trest)"
proof -
  have "List.map_filter emit_topic (tpre @ g # trest) =
      List.map_filter emit_topic tpre
      @ (case emit_topic g of None \<Rightarrow> [] | Some t \<Rightarrow> [t])
      @ List.map_filter emit_topic trest"
    by (simp add: map_filter_append split: option.splits)
  with parse_eq[of s] assms show ?thesis by simp
qed

lemma emit_topic_eq:
  "emit_topic [name, content] =
     (if List.map_filter emit_question (findall question_pattern content) = [] then None
      else Some \<lparr>topic = strip name,
        questions = List.map_filter emit_question (findall question_pattern content)\<rparr>)"
  by (simp add: emit_topic_def questions_of_content)

lemma emitted_in_text:
  assumes topic: "findall topic_pattern s = tpre @ [name, content] # trest"
    and block: "findall question_pattern content = pre @ g # rest"
    and emit: "emit_question g = Some qd"
  shows "questions_loop (findall question_pattern content) [] =
           Inr (List.map_filter emit_question pre @ qd # List.map_filter emit_question rest)"
    and "parse_question_bank s =
           Inr (List.map_filter emit_topic tpre
                @ \<lparr>topic = strip name, questions =
                     List.map_filter emit_question pre @ qd # List.map_filter emit_question rest\<rparr>
                # List.map_filter emit_topic trest)"
proof -
  show q: "questions_loop (findall question_pattern content) [] =
           Inr (List.map_filter emit_question pre @ qd # List.map_filter emit_question rest)"
    using questions_split[OF block] emit by simp
  have "List.map_filter emit_question (findall question_pattern content) =
      List.map_filter emit_question pre @ qd # List.map_filter emit_question rest"
    using q questions_of_content[of content] by simp
  then have "emit_topic [name, content] = Some \<lparr>topic = strip name, questions =
      List.map_filter emit_question pre @ qd # List.map_filter emit_question rest\<rparr>"
    by (simp add: emit_topic_eq)
  with parse_split[OF topic] show "parse_question_bank s =
           Inr (List.map_filter emit_topic tpre
                @ \<lparr>topic = strip name, questions =
                     List.map_filter emit_question pre @ qd # List.map_filter emit_question rest\<rparr>
                # List.map_filter emit_topic trest)"
    by simp
qed

lemma dropped_from_text:
  assumes topic: "findall topic_pattern s = tpre @ [name, content] # trest"
    and block: "findall question_pattern content = pre @ g # rest"
    and emit: "emit_question g = None"
  shows "questions_loop (findall question_pattern content) [] =
           Inr (List.map_filter emit_question (pre @ rest))"
    and "parse_question_bank s =
           Inr (List.map_filter emit_topic tpre
                @ (if List.map_filter emit_question (pre @ rest) = [] then []
                   else [\<lparr>topic = strip name, questions =
                           List.map_filter emit_question (pre @ rest)\<rparr>])
                @ List.map_filter emit_topic trest)"
proof -
  show q: "questions_loop (findall question_pattern content) [] =
           Inr (List.map_filter emit_question (pre @ rest))"
    using questions_split[OF block] emit by (simp add: map_filter_append)
  have "List.map_filter emit_question (findall question_pattern content) =
      List.map_filter emit_question (pre @ rest)"
    using q questions_of_content[of content] by simp
  then have "emit_topic [name, content] =
      (if List.map_filter emit_question (pre @ rest) = [] then None
       else Some \<lparr>topic = strip name, questions =
                           List.map_filter emit_question (pre @ rest)\<rparr>)"
    by (simp add: emit_topic_eq)
  with parse_split[OF topic] show "parse_question_bank s =
           Inr (List.map_filter emit_topic tpre
                @ (if List.map_filter emit_question (pre @ rest) = [] then []
                   else [\<lparr>topic = strip name, questions =
                           List.map_filter emit_question (pre @ rest)\<rparr>])
                @ List.map_filter emit_topic trest)"
    by simp
qed

lemma emit_question_eq:
  "emit_question [n, q, a, b, c, d] =
     (if marked_from 0 [a, b, c, d] = [] then None
      else Some \<lparr>question = strip q, options = map clean_option [a, b, c, d],
        correct_index = last (marked_from 0 [a, b, c, d])\<rparr>)"
proof -
  define m where "m = marked_from 0 [a, b, c, d]"
  have ol: "options_loop 0 [a, b, c, d] [] None =
      (map clean_option [a, b, c, d], if m = [] then None else Some (last m))"
    unfolding m_def by (simp only: options_loop_eq append_Nil)
  show ?thesis
    unfolding emit_question_def list.case ol m_def[symmetric] by simp
qed

lemma dropWhile_keep:
  "dropWhile P ys = ys \<Longrightarrow> dropWhile P (ps @ ys) = dropWhile P ps @ ys"
  by (induction ps) simp_all

lemma sublist_strip_kept:
  assumes ne: "xs \<noteq> []" and h: "\<not> isspace (hd xs)" and l: "\<not> isspace (last xs)"
    and sub: "sublist xs s"
  shows "sublist xs (strip s)"
proof -
  from sub obtain ps ss where s: "s = ps @ xs @ ss" by (auto simp: sublist_def)
  from ne h have dx: "dropWhile isspace (xs @ ss) = xs @ ss" by (cases xs) simp_all
  have 1: "dropWhile isspace s = dropWhile isspace ps @ xs @ ss"
    unfolding s using dx by (rule dropWhile_keep)
  from ne l have dr: "dropWhile isspace (rev xs @ rev (dropWhile isspace ps))
      = rev xs @ rev (dropWhile isspace ps)"
    by (cases "rev xs") (auto simp: hd_rev[symmetric])
  have "rev (dropWhile isspace s) = rev ss @ rev xs @ rev (dropWhile isspace ps)"
    unfolding 1 by simp
  then have 2: "dropWhile isspace (rev (dropWhile isspace s))
      = dropWhile isspace (rev ss) @ rev xs @ rev (dropWhile isspace ps)"
    using dropWhile_keep[OF dr, of "rev ss"] by simp
  have "strip s = dropWhile isspace ps @ xs @ rev (dropWhile isspace (rev ss))"
    unfolding strip_def 2 by simp
  then show ?thesis by simp
qed

lemma carries_iff: "carries raw \<longleftrightarrow> sublist MARKER raw"
proof
  assume "carries raw"
  then show "sublist MARKER raw" by (rule carries_sublist)
next
  assume "sublist MARKER raw"
  then have "sublist MARKER (strip raw)"
    by (rule sublist_strip_kept[rotated 3])
       (simp_all add: MARKER_def ANSWER_WORD_def isspace_def)
  then show "carries raw" by (simp add: carries_def)
qed

lemma set_marked_from:
  "set (marked_from k raws) = {k + i | i. i < length raws \<and> sublist MARKER (raws ! i)}"
proof (induction raws arbitrary: k)
  case Nil
  show ?case by simp
next
  case (Cons raw raws)
  have "{k + i | i. i < length (raw # raws) \<and> sublist MARKER ((raw # raws) ! i)}
      = (if sublist MARKER raw then {k} else {})
        \<union> {Suc k + i | i. i < length raws \<and> sublist MARKER (raws ! i)}"
    (is "?L = ?R")
  proof (intro set_eqI iffI)
    fix x assume "x \<in> ?L"
    then obtain i where i: "x = k + i" "i < length (raw # raws)"
      "sublist MARKER ((raw # raws) ! i)" by blast
    show "x \<in> ?R"
    proof (cases i)
      case 0
      with i show ?thesis by simp
    next
      case (Suc j)
      with i have "x = Suc k + j \<and> j < length raws \<and> sublist MARKER (raws ! j)" by simp
      then show ?thesis by blast
    qed
  next
    fix x assume "x \<in> ?R"
    then consider "sublist MARKER raw" "x = k"
      | j where "x = Suc k + j" "j < length raws" "sublist MARKER (raws ! j)"
      by (auto split: if_splits)
    then show "x \<in> ?L"
    proof cases
      case 1
      then have "x = k + 0 \<and> 0 < length (raw # raws) \<and> sublist MARKER ((raw # raws) ! 0)"
        by simp
      then show ?thesis by blast
    next
      case 2
      then have "x = k + Suc j \<and> Suc j < length (raw # raws)
          \<and> sublist MARKER ((raw # raws) ! Suc j)"
        by simp
      then show ?thesis by blast
    qed
  qed
  then show ?case by (simp add: Cons carries_iff)
qed

lemma set_marked_four:
  "set (marked_from 0 [a, b, c, d]) = {i. i < 4 \<and> sublist MARKER ([a, b, c, d] ! i)}"
proof -
  have l: "length [a, b, c, d] = 4" by simp
  have "{0 + i | i. i < length [a, b, c, d] \<and> sublist MARKER ([a, b, c, d] ! i)}
      = {i. i < 4 \<and> sublist MARKER ([a, b, c, d] ! i)}"
    unfolding l by simp
  then show ?thesis by (simp only: set_marked_from)
qed

lemma length_marked_from:
  "length (marked_from k raws) = length (filter (sublist MARKER) raws)"
  by (induction raws arbitrary: k) (simp_all add: carries_iff)

lemma emit_marked:
  assumes "marked_from 0 [a, b, c, d] \<noteq> []"
  shows "emit_question [n, q, a, b, c, d] =
     Some \<lparr>question = strip q, options = map clean_option [a, b, c, d],
       correct_index = Max {i. i < 4 \<and> sublist MARKER ([a, b, c, d] ! i)}\<rparr>"
  using assms last_marked_from[OF assms]
  by (simp only: emit_question_eq set_marked_four if_False)

text \<open>Claim C1, as amended. Take any text, any topic block of it and any question block of
  the topic's body, as the two patterns find them. When two or more of the four option
  texts the question pattern captures contain the marker, the question is emitted, in
  the place of its block, and its \<open>correct_index\<close> is the highest index of an option text
  that contains the marker: the loop overwrites the index at every marked option, so the
  last one wins and the markers on earlier options do not change the index.\<close>

theorem last_marker_wins:
  assumes topic: "findall topic_pattern text = tpre @ [name, content] # trest"
    and block: "findall question_pattern content = pre @ [n, q, a, b, c, d] # rest"
    and two: "2 \<le> length (filter (sublist MARKER) [a, b, c, d])"
  shows "\<exists>qd. correct_index qd = Max {i. i < 4 \<and> sublist MARKER ([a, b, c, d] ! i)}
      \<and> questions_loop (findall question_pattern content) []
          = Inr (List.map_filter emit_question pre @ qd # List.map_filter emit_question rest)
      \<and> parse_question_bank text
          = Inr (List.map_filter emit_topic tpre
                 @ \<lparr>topic = strip name, questions =
                      List.map_filter emit_question pre @ qd
                        # List.map_filter emit_question rest\<rparr>
                 # List.map_filter emit_topic trest)"
proof -
  from two have "length (marked_from 0 [a, b, c, d]) \<noteq> 0"
    unfolding length_marked_from by linarith
  then have ne: "marked_from 0 [a, b, c, d] \<noteq> []"
    by (simp only: length_0_conv not_False_eq_True)
  define qd where "qd = \<lparr>question = strip q, options = map clean_option [a, b, c, d],
      correct_index = Max {i. i < 4 \<and> sublist MARKER ([a, b, c, d] ! i)}\<rparr>"
  have e: "emit_question [n, q, a, b, c, d] = Some qd"
    unfolding qd_def using ne by (rule emit_marked)
  have "correct_index qd = Max {i. i < 4 \<and> sublist MARKER ([a, b, c, d] ! i)}"
    by (simp add: qd_def)
  with emitted_in_text[OF topic block e] show ?thesis by blast
qed

text \<open>Claim C3, as amended. Take any text, any topic block of it and any question block of
  the topic's body, as the two patterns find them. When none of the four option texts
  the question pattern captures contains the marker, no question of that block appears in
  the output: the questions of the topic are those the other blocks emit, and the topic
  itself is left out when they emit none. An option text is what the pattern captures
  behind the label, up to the next label and, for the fourth option, up to the next
  question marker or the end of the topic's body.\<close>

theorem unmarked_question_dropped:
  assumes topic: "findall topic_pattern text = tpre @ [name, content] # trest"
    and block: "findall question_pattern content = pre @ [n, q, a, b, c, d] # rest"
    and unmarked: "\<not> sublist MARKER a" "\<not> sublist MARKER b"
      "\<not> sublist MARKER c" "\<not> sublist MARKER d"
  shows "questions_loop (findall question_pattern content) []
          = Inr (List.map_filter emit_question (pre @ rest))
      \<and> parse_question_bank text
          = Inr (List.map_filter emit_topic tpre
                 @ (if List.map_filter emit_question (pre @ rest) = [] then []
                    else [\<lparr>topic = strip name, questions =
                            List.map_filter emit_question (pre @ rest)\<rparr>])
                 @ List.map_filter emit_topic trest)"
proof -
  from unmarked have "marked_from 0 [a, b, c, d] = []"
    by (simp add: carries_iff)
  then have e: "emit_question [n, q, a, b, c, d] = None"
    by (simp only: emit_question_eq refl if_True)
  from dropped_from_text[OF topic block e] show ?thesis by blast
qed





section \<open>Concrete runs\<close>

text \<open>In \<open>TWO_MARKERS_TEXT\<close> the option lines 0 and 1 of the only block carry the marker,
  and the recorded index is 1, not 0.\<close>

theorem first_marker_wins_counterexample:
  "findall question_pattern TWO_MARKERS_BODY
     = [[[0x31], [0x51], OPT_A_MARKED, OPT_B_MARKED, [0x43], [0x44]]]
   \<and> marked_from 0 [OPT_A_MARKED, OPT_B_MARKED, [0x43], [0x44]] = [0, 1]
   \<and> parse_question_bank TWO_MARKERS_TEXT
     = Inr [\<lparr>topic = [0x54], questions =
             [\<lparr>question = [0x51], options = [[0x41], [0x42], [0x43], [0x44]],
               correct_index = 1\<rparr>]\<rparr>]"
  by code_simp

text \<open>\<open>NO_NAME_TEXT\<close> gives a topic whose name is empty, with a question whose prompt is
  empty.\<close>

theorem record_shape_counterexample:
  "parse_question_bank NO_NAME_TEXT
     = Inr [\<lparr>topic = [], questions =
             [\<lparr>question = [], options = [[0x41], [0x42], [0x43], [0x44]],
               correct_index = 0\<rparr>]\<rparr>]"
  by code_simp

theorem output_record_shape_witness:
  "parse_question_bank NO_NAME_TEXT
     = Inr [\<lparr>topic = [], questions =
             [\<lparr>question = [], options = [[0x41], [0x42], [0x43], [0x44]],
               correct_index = 0\<rparr>]\<rparr>]
   \<and> list_all (\<lambda>t. trimmed (topic t) \<and>
         list_all (\<lambda>qd. length (options qd) = 4 \<and> correct_index qd < 4) (questions t))
       [\<lparr>topic = [], questions =
             [\<lparr>question = [], options = [[0x41], [0x42], [0x43], [0x44]],
               correct_index = 0\<rparr>]\<rparr>]"
proof -
  have p: "parse_question_bank NO_NAME_TEXT
     = Inr [\<lparr>topic = [], questions =
             [\<lparr>question = [], options = [[0x41], [0x42], [0x43], [0x44]],
               correct_index = 0\<rparr>]\<rparr>]"
    by code_simp
  from output_record_shape[OF p] p show ?thesis
    unfolding list_all_iff by blast
qed

theorem output_follows_source_order_witness:
  "finditer topic_pattern TWO_MARKERS_TEXT 0 = [(0, [[0x54], TWO_MARKERS_BODY])]
   \<and> prefix TOPIC_HEADER (drop 0 TWO_MARKERS_TEXT)
   \<and> finditer question_pattern TWO_MARKERS_BODY 0
       = [(1, [[0x31], [0x51], OPT_A_MARKED, OPT_B_MARKED, [0x43], [0x44]])]
   \<and> re_match question_pattern (drop 1 TWO_MARKERS_BODY) 0 [] \<noteq> None
   \<and> parse_question_bank TWO_MARKERS_TEXT
       = Inr (List.map_filter emit_topic [[[0x54], TWO_MARKERS_BODY]])
   \<and> questions_loop
         (map (\<lambda>g. [0x39, 0x39] # tl g)
            [[[0x31], [0x51], OPT_A_MARKED, OPT_B_MARKED, [0x43], [0x44]]]) []
       = questions_loop [[[0x31], [0x51], OPT_A_MARKED, OPT_B_MARKED, [0x43], [0x44]]] []"
proof -
  have ft: "finditer topic_pattern TWO_MARKERS_TEXT 0 = [(0, [[0x54], TWO_MARKERS_BODY])]"
    by code_simp
  have fq: "finditer question_pattern TWO_MARKERS_BODY 0
       = [(1, [[0x31], [0x51], OPT_A_MARKED, OPT_B_MARKED, [0x43], [0x44]])]"
    by code_simp
  note t = output_follows_source_order[of TWO_MARKERS_TEXT TWO_MARKERS_BODY
      "\<lambda>g. [0x39, 0x39]" "[[[0x31], [0x51], OPT_A_MARKED, OPT_B_MARKED, [0x43], [0x44]]]" "[]"]
  from t have "prefix TOPIC_HEADER (drop 0 TWO_MARKERS_TEXT)"
    unfolding ft by simp
  moreover from t have "re_match question_pattern (drop 1 TWO_MARKERS_BODY) 0 [] \<noteq> None"
    unfolding fq by simp
  moreover from t have "parse_question_bank TWO_MARKERS_TEXT
       = Inr (List.map_filter emit_topic [[[0x54], TWO_MARKERS_BODY]])"
    unfolding ft by simp
  moreover from t have "questions_loop
         (map (\<lambda>g. [0x39, 0x39] # tl g)
            [[[0x31], [0x51], OPT_A_MARKED, OPT_B_MARKED, [0x43], [0x44]]]) []
       = questions_loop [[[0x31], [0x51], OPT_A_MARKED, OPT_B_MARKED, [0x43], [0x44]]] []"
    by blast
  ultimately show ?thesis using ft fq by blast
qed

theorem empty_topic_dropped_witness:
  "questions_loop (findall question_pattern [0x78]) [] = Inr []
   \<and> topics_loop ([] @ [[0x54], [0x78]] # []) [] = Inr []
   \<and> parse_question_bank TWO_MARKERS_TEXT
     = Inr [\<lparr>topic = [0x54], questions =
             [\<lparr>question = [0x51], options = [[0x41], [0x42], [0x43], [0x44]],
               correct_index = 1\<rparr>]\<rparr>]
   \<and> list_all (\<lambda>t. questions t \<noteq> [])
       [\<lparr>topic = [0x54], questions =
             [\<lparr>question = [0x51], options = [[0x41], [0x42], [0x43], [0x44]],
               correct_index = 1\<rparr>]\<rparr>]"
proof -
  have e: "questions_loop (findall question_pattern [0x78]) [] = Inr []"
    by code_simp
  have p: "parse_question_bank TWO_MARKERS_TEXT
     = Inr [\<lparr>topic = [0x54], questions =
             [\<lparr>question = [0x51], options = [[0x41], [0x42], [0x43], [0x44]],
               correct_index = 1\<rparr>]\<rparr>]"
    by code_simp
  note t = empty_topic_dropped[of "[0x78]" "[]" "[0x54]" "[]" "[]" TWO_MARKERS_TEXT
      "[\<lparr>topic = [0x54], questions =
             [\<lparr>question = [0x51], options = [[0x41], [0x42], [0x43], [0x44]],
               correct_index = 1\<rparr>]\<rparr>]"]
  from t e have "topics_loop ([] @ [[0x54], [0x78]] # []) [] = Inr []" by simp
  moreover from t p have "list_all (\<lambda>t. questions t \<noteq> [])
       [\<lparr>topic = [0x54], questions =
             [\<lparr>question = [0x51], options = [[0x41], [0x42], [0x43], [0x44]],
               correct_index = 1\<rparr>]\<rparr>]"
    unfolding list_all_iff by blast
  ultimately show ?thesis using e p by blast
qed

theorem parse_never_fails_witness:
  "\<exists>topics. parse_question_bank NO_NAME_TEXT = Inr topics"
  using parse_never_fails[of NO_NAME_TEXT] .

theorem no_header_no_topics_witness:
  "\<not> sublist TOPIC_HEADER TWO_MARKERS_BODY \<and> parse_question_bank TWO_MARKERS_BODY = Inr []"
proof -
  have h: "\<not> sublist TOPIC_HEADER TWO_MARKERS_BODY" by code_simp
  from no_header_no_topics[OF h] h show ?thesis by blast
qed

text \<open>In \<open>UNMARKED_NOTE_TEXT\<close> none of the four option lines contains the marker, yet the
  question is emitted, with index 3: the fourth option text runs on to the end of the
  topic's body and so takes in the note line.\<close>

theorem unmarked_lines_counterexample:
  "\<not> sublist MARKER (OPTION_LINE 0x623 [0x41]) \<and> \<not> sublist MARKER (OPTION_LINE 0x628 [0x42])
   \<and> \<not> sublist MARKER (OPTION_LINE 0x62C [0x43]) \<and> \<not> sublist MARKER (OPTION_LINE 0x62F [0x44])
   \<and> findall question_pattern UNMARKED_NOTE_BODY
       = [[[0x31], [0x51], [0x41], [0x42], [0x43], [0x44, 0xA] @ NOTE_LINE]]
   \<and> parse_question_bank UNMARKED_NOTE_TEXT
       = Inr [\<lparr>topic = [0x54], questions =
               [\<lparr>question = [0x51], options = [[0x41], [0x42], [0x43], [0x44, 0xA, 0x4E]],
                 correct_index = 3\<rparr>]\<rparr>]"
  by code_simp


theorem last_marker_wins_witness:
  "findall topic_pattern TWO_MARKERS_TEXT = [] @ [[0x54], TWO_MARKERS_BODY] # []
   \<and> findall question_pattern TWO_MARKERS_BODY
       = [] @ [[0x31], [0x51], OPT_A_MARKED, OPT_B_MARKED, [0x43], [0x44]] # []
   \<and> 2 \<le> length (filter (sublist MARKER) [OPT_A_MARKED, OPT_B_MARKED, [0x43], [0x44]])
   \<and> (\<exists>qd. correct_index qd = 1
          \<and> parse_question_bank TWO_MARKERS_TEXT
              = Inr [\<lparr>topic = [0x54], questions = [qd]\<rparr>])"
proof -
  have topic: "findall topic_pattern TWO_MARKERS_TEXT = [] @ [[0x54], TWO_MARKERS_BODY] # []"
    by code_simp
  have block: "findall question_pattern TWO_MARKERS_BODY
       = [] @ [[0x31], [0x51], OPT_A_MARKED, OPT_B_MARKED, [0x43], [0x44]] # []"
    by code_simp
  have two: "2 \<le> length (filter (sublist MARKER) [OPT_A_MARKED, OPT_B_MARKED, [0x43], [0x44]])"
    by code_simp
  have m: "marked_from 0 [OPT_A_MARKED, OPT_B_MARKED, [0x43], [0x44]] = [0, 1]"
    by code_simp
  have mx: "Max {i. i < 4 \<and> sublist MARKER ([OPT_A_MARKED, OPT_B_MARKED, [0x43], [0x44]] ! i)} = 1"
    unfolding set_marked_four[symmetric] m by simp
  have st: "strip [0x54] = [0x54]" by code_simp
  from last_marker_wins[OF topic block two] obtain qd where
    "correct_index qd = 1"
    "parse_question_bank TWO_MARKERS_TEXT = Inr [\<lparr>topic = [0x54], questions = [qd]\<rparr>]"
    unfolding mx st by (auto simp: map_filter_simps)
  then have "\<exists>qd. correct_index qd = 1
          \<and> parse_question_bank TWO_MARKERS_TEXT
              = Inr [\<lparr>topic = [0x54], questions = [qd]\<rparr>]"
    by blast
  with topic block two show ?thesis by (intro conjI)
qed

theorem unmarked_question_dropped_witness:
  "findall topic_pattern UNMARKED_FIRST_TEXT = [] @ [[0x54], UNMARKED_FIRST_BODY] # []
   \<and> findall question_pattern UNMARKED_FIRST_BODY
       = [] @ [[0x31], [0x51], [0x41], [0x42], [0x43], [0x44]]
            # [[[0x32], [0x51], OPT_A_MARKED, [0x42], [0x43], [0x44]]]
   \<and> \<not> sublist MARKER [0x41] \<and> \<not> sublist MARKER [0x42]
   \<and> \<not> sublist MARKER [0x43] \<and> \<not> sublist MARKER [0x44]
   \<and> parse_question_bank UNMARKED_FIRST_TEXT
       = Inr [\<lparr>topic = [0x54], questions =
               [\<lparr>question = [0x51], options = [[0x41], [0x42], [0x43], [0x44]],
                 correct_index = 0\<rparr>]\<rparr>]"
proof -
  have topic: "findall topic_pattern UNMARKED_FIRST_TEXT = [] @ [[0x54], UNMARKED_FIRST_BODY] # []"
    by code_simp
  have block: "findall question_pattern UNMARKED_FIRST_BODY
       = [] @ [[0x31], [0x51], [0x41], [0x42], [0x43], [0x44]]
            # [[[0x32], [0x51], OPT_A_MARKED, [0x42], [0x43], [0x44]]]"
    by code_simp
  have a: "\<not> sublist MARKER [0x41]" and b: "\<not> sublist MARKER [0x42]"
    and c: "\<not> sublist MARKER [0x43]" and d: "\<not> sublist MARKER [0x44]"
    by code_simp+
  have other: "List.map_filter emit_question
      ([] @ [[[0x32], [0x51], OPT_A_MARKED, [0x42], [0x43], [0x44]]])
      = [\<lparr>question = [0x51], options = [[0x41], [0x42], [0x43], [0x44]],
                 correct_index = 0\<rparr>]"
    by code_simp
  have st: "strip [0x54] = [0x54]" by code_simp
  from unmarked_question_dropped[OF topic block a b c d]
  have "parse_question_bank UNMARKED_FIRST_TEXT
       = Inr [\<lparr>topic = [0x54], questions =
               [\<lparr>question = [0x51], options = [[0x41], [0x42], [0x43], [0x44]],
                 correct_index = 0\<rparr>]\<rparr>]"
    unfolding other st by (simp add: map_filter_simps)
  with topic block a b c d show ?thesis by (intro conjI)
qed



section \<open>The embedded sample, parsed\<close>

text \<open>Claim C2. Parsing \<open>QUESTION_BANK\<close> gives exactly two topics. The first is named
  by the fourteen code points of the first header's title and has two questions, with
  \<open>correct_index\<close> 1 and 0 in this order; the second is named by the five code points of
  the second header's title and has one question, with \<open>correct_index\<close> 1.\<close>

theorem sample_parse:
  "parse_question_bank QUESTION_BANK =
     Inr [\<lparr>topic = [0x627, 0x644, 0x62D, 0x631, 0x643, 0x629, 0x20, 0x627, 0x644, 0x645, 0x648, 0x62C,
                 0x64A, 0x629],
         questions =
           [\<lparr>question =
                [0x645, 0x627, 0x20, 0x647, 0x64A, 0x20, 0x627, 0x644, 0x638, 0x627, 0x647, 0x631,
                 0x629, 0x20, 0x627, 0x644, 0x62A, 0x64A, 0x20, 0x62A, 0x62D, 0x62F, 0x62B, 0x20,
                 0x639, 0x646, 0x62F, 0x645, 0x627, 0x20, 0x62A, 0x645, 0x631, 0x20, 0x645, 0x648,
                 0x62C, 0x629, 0x20, 0x635, 0x648, 0x62A, 0x64A, 0x629, 0x20, 0x645, 0x646, 0x20,
                 0x627, 0x644, 0x647, 0x648, 0x627, 0x621, 0x20, 0x625, 0x644, 0x649, 0x20, 0x627,
                 0x644, 0x645, 0x627, 0x621, 0x61F],
              options =
                [[0x627, 0x646, 0x639, 0x643, 0x627, 0x633],
                 [0x627, 0x646, 0x643, 0x633, 0x627, 0x631],
                 [0x62D, 0x64A, 0x648, 0x62F],
                 [0x62A, 0x62F, 0x627, 0x62E, 0x644]],
              correct_index = 1\<rparr>,
            \<lparr>question =
                [0x641, 0x64A, 0x20, 0x627, 0x644, 0x62D, 0x631, 0x643, 0x629, 0x20, 0x627, 0x644,
                 0x62A, 0x648, 0x627, 0x641, 0x642, 0x64A, 0x629, 0x20, 0x627, 0x644, 0x628, 0x633,
                 0x64A, 0x637, 0x629, 0x60C, 0x20, 0x62A, 0x643, 0x648, 0x646, 0x20, 0x633, 0x631,
                 0x639, 0x629, 0x20, 0x627, 0x644, 0x62C, 0x633, 0x645, 0x20, 0x623, 0x642, 0x635,
                 0x649, 0x20, 0x645, 0x627, 0x20, 0x64A, 0x645, 0x643, 0x646, 0x20, 0x639, 0x646,
                 0x62F, 0x2E, 0x2E, 0x2E],
              options =
                [[0x645, 0x648, 0x636, 0x639, 0x20, 0x627, 0x644, 0x627, 0x62A, 0x632, 0x627, 0x646],
                 [0x623, 0x642, 0x635, 0x649, 0x20, 0x625, 0x632, 0x627, 0x62D, 0x629],
                 [0x645, 0x646, 0x62A, 0x635, 0x641, 0x20, 0x627, 0x644, 0x645, 0x633, 0x627, 0x641,
                  0x629, 0x20, 0x628, 0x64A, 0x646, 0x20, 0x627, 0x644, 0x627, 0x62A, 0x632, 0x627,
                  0x646, 0x20, 0x648, 0x623, 0x642, 0x635, 0x649, 0x20, 0x625, 0x632, 0x627, 0x62D,
                  0x629],
                 [0x623, 0x64A, 0x20, 0x646, 0x642, 0x637, 0x629]],
              correct_index = 0\<rparr>]\<rparr>,
          \<lparr>topic = [0x627, 0x644, 0x636, 0x648, 0x621],
         questions =
           [\<lparr>question =
                [0x644, 0x645, 0x627, 0x630, 0x627, 0x20, 0x64A, 0x628, 0x62F, 0x648, 0x20, 0x62D,
                 0x645, 0x627, 0x645, 0x20, 0x627, 0x644, 0x633, 0x628, 0x627, 0x62D, 0x629, 0x20,
                 0x623, 0x642, 0x644, 0x20, 0x639, 0x645, 0x642, 0x64B, 0x627, 0x20, 0x645, 0x645,
                 0x627, 0x20, 0x647, 0x648, 0x20, 0x639, 0x644, 0x64A, 0x647, 0x20, 0x641, 0x64A,
                 0x20, 0x627, 0x644, 0x648, 0x627, 0x642, 0x639, 0x61F],
              options =
                [[0x628, 0x633, 0x628, 0x628, 0x20, 0x627, 0x646, 0x639, 0x643, 0x627, 0x633, 0x20,
                  0x627, 0x644, 0x636, 0x648, 0x621],
                 [0x628, 0x633, 0x628, 0x628, 0x20, 0x627, 0x646, 0x643, 0x633, 0x627, 0x631, 0x20,
                  0x627, 0x644, 0x636, 0x648, 0x621],
                 [0x628, 0x633, 0x628, 0x628, 0x20, 0x62D, 0x64A, 0x648, 0x62F, 0x20, 0x627, 0x644,
                  0x636, 0x648, 0x621],
                 [0x628, 0x633, 0x628, 0x628, 0x20, 0x62A, 0x634, 0x62A, 0x62A, 0x20, 0x627, 0x644,
                  0x636, 0x648, 0x621]],
              correct_index = 1\<rparr>]\<rparr>]"
  by code_simp

end
